theory Spec2Isabelle
  imports Main "HOL-Library.Multiset" "HOL-Library.Sublist"
begin

section \<open>Disk scheduling simulator: the scheduling engine of streamlitapp.py\<close>

text \<open>
  Cylinder numbers, the head position and seek totals are Python integers, modelled as
  \<^typ>\<open>int\<close>. A request queue is a Python list, modelled as \<^typ>\<open>int list\<close>. Every generator
  returns the pair (seek sequence, total seek). Where a built-in that the code calls can
  raise, the result is a sum with the exception on the left.
\<close>

subsection \<open>Python built-ins the schedulers call\<close>

text \<open>The only exception the modelled built-ins can raise.\<close>

datatype py_error = ValueError

text \<open>
  \<^verbatim>\<open>sorted(xs)\<close> and \<^verbatim>\<open>sorted(xs, reverse=True)\<close>: a stable sort; with
  \<^verbatim>\<open>reverse=True\<close> the order is descending and equal elements keep their order.
\<close>

definition sorted_py :: "int list \<Rightarrow> bool \<Rightarrow> int list" where
  "sorted_py xs reverse = (if reverse then sort_key (\<lambda>x. - x) xs else sort_key (\<lambda>x. x) xs)"

text \<open>
  \<^verbatim>\<open>min(xs, key=key)\<close>: raises ValueError on an empty list; otherwise the first item
  is the candidate and a later item replaces it only when its key is strictly smaller.
\<close>

fun min_py :: "('a \<Rightarrow> int) \<Rightarrow> 'a list \<Rightarrow> py_error + 'a" where
  "min_py key [] = Inl ValueError"
| "min_py key (x # xs) =
     Inr (foldl (\<lambda>best item. if key item < key best then item else best) x xs)"

text \<open>\<^verbatim>\<open>xs.remove(v)\<close>: deletes the first occurrence; raises ValueError when there is none.\<close>

fun remove_py :: "'a list \<Rightarrow> 'a \<Rightarrow> py_error + 'a list" where
  "remove_py [] v = Inl ValueError"
| "remove_py (x # xs) v =
     (if x = v then Inr xs
      else (case remove_py xs v of Inl e \<Rightarrow> Inl e | Inr ys \<Rightarrow> Inr (x # ys)))"

text \<open>
  \<^verbatim>\<open>sum(abs(s[i] - s[i + 1]) for i in range(len(s) - 1))\<close>, the expression that fcfs,
  scan, cscan, look and clook use for the total. For an empty list \<^verbatim>\<open>range(-1)\<close> is empty,
  as is \<open>[0..<0 - 1]\<close> over the naturals.
\<close>

definition sum_abs_steps :: "int list \<Rightarrow> int" where
  "sum_abs_steps seek_sequence =
     (\<Sum>i\<leftarrow>[0..<length seek_sequence - 1]. \<bar>seek_sequence ! i - seek_sequence ! (i + 1)\<bar>)"

subsection \<open>The six generators\<close>

definition fcfs :: "int list \<Rightarrow> int \<Rightarrow> int list \<times> int" where
  "fcfs requests head =
     (let seek_sequence = [head] @ requests;
          total_seek = sum_abs_steps seek_sequence
      in (seek_sequence, total_seek))"

text \<open>The local variables of sstf that its loop updates.\<close>

record sstf_state =
  st_requests :: "int list"
  st_head :: int
  st_seek_sequence :: "int list"
  st_total_seek :: int

text \<open>One pass through the body of the while loop of sstf.\<close>

definition sstf_body :: "sstf_state \<Rightarrow> py_error + sstf_state" where
  "sstf_body s =
     (case min_py (\<lambda>x. \<bar>x - st_head s\<bar>) (st_requests s) of
        Inl e \<Rightarrow> Inl e
      | Inr closest \<Rightarrow>
          (case remove_py (st_requests s) closest of
             Inl e \<Rightarrow> Inl e
           | Inr requests' \<Rightarrow>
               Inr \<lparr>st_requests = requests',
                    st_head = closest,
                    st_seek_sequence = st_seek_sequence s @ [closest],
                    st_total_seek = st_total_seek s + \<bar>st_head s - closest\<bar>\<rparr>))"

text \<open>\<^verbatim>\<open>while requests: ...\<close>\<close>

function sstf_loop :: "sstf_state \<Rightarrow> py_error + sstf_state" where
  "sstf_loop s =
     (if st_requests s \<noteq> [] then
        (case sstf_body s of Inl e \<Rightarrow> Inl e | Inr s' \<Rightarrow> sstf_loop s')
      else Inr s)"
  by pat_completeness auto
termination
proof (relation "measure (\<lambda>s. length (st_requests s))")
  show "wf (measure (\<lambda>s. length (st_requests s)))" by simp
next
  fix s s'
  assume body: "sstf_body s = Inr s'"
  have shorter: "remove_py xs v = Inr ys \<Longrightarrow> Suc (length ys) = length xs"
    for xs ys :: "int list" and v
    by (induction xs arbitrary: ys) (auto split: if_splits sum.splits)
  from body have "Suc (length (st_requests s')) = length (st_requests s)"
    by (auto simp: sstf_body_def split: sum.splits dest: shorter)
  then show "(s', s) \<in> measure (\<lambda>s. length (st_requests s))" by simp
qed

declare sstf_loop.simps [simp del]

definition sstf_init :: "int list \<Rightarrow> int \<Rightarrow> sstf_state" where
  "sstf_init requests head =
     \<lparr>st_requests = requests, st_head = head, st_seek_sequence = [head], st_total_seek = 0\<rparr>"

definition sstf :: "int list \<Rightarrow> int \<Rightarrow> py_error + int list \<times> int" where
  "sstf requests head =
     (case sstf_loop (sstf_init requests head) of
        Inl e \<Rightarrow> Inl e
      | Inr s \<Rightarrow> Inr (st_seek_sequence s, st_total_seek s))"

text \<open>
  A fixed number of passes through the loop body, one after the other, stopping at the
  first exception. It is used to count the iterations of the loop of sstf and to name the
  state before each of them.
\<close>

fun sstf_iterate :: "nat \<Rightarrow> sstf_state \<Rightarrow> py_error + sstf_state" where
  "sstf_iterate 0 s = Inr s"
| "sstf_iterate (Suc k) s =
     (case sstf_body s of Inl e \<Rightarrow> Inl e | Inr s' \<Rightarrow> sstf_iterate k s')"

definition scan :: "int list \<Rightarrow> int \<Rightarrow> int \<Rightarrow> int list \<times> int" where
  "scan requests head max_cylinder =
     (let left = sorted_py (filter (\<lambda>r. r < head) requests) True;
          right = sorted_py (filter (\<lambda>r. r \<ge> head) requests) False;
          seek_sequence = [head] @ right @ [max_cylinder - 1] @ left;
          total_seek = sum_abs_steps seek_sequence
      in (seek_sequence, total_seek))"

definition cscan :: "int list \<Rightarrow> int \<Rightarrow> int \<Rightarrow> int list \<times> int" where
  "cscan requests head max_cylinder =
     (let left = sorted_py (filter (\<lambda>r. r < head) requests) False;
          right = sorted_py (filter (\<lambda>r. r \<ge> head) requests) False;
          seek_sequence = [head] @ right @ [max_cylinder - 1, 0] @ left;
          total_seek = sum_abs_steps seek_sequence
      in (seek_sequence, total_seek))"

definition look :: "int list \<Rightarrow> int \<Rightarrow> int list \<times> int" where
  "look requests head =
     (let left = sorted_py (filter (\<lambda>r. r < head) requests) True;
          right = sorted_py (filter (\<lambda>r. r \<ge> head) requests) False;
          seek_sequence = [head] @ right @ left;
          total_seek = sum_abs_steps seek_sequence
      in (seek_sequence, total_seek))"

definition clook :: "int list \<Rightarrow> int \<Rightarrow> int list \<times> int" where
  "clook requests head =
     (let left = sorted_py (filter (\<lambda>r. r < head) requests) False;
          right = sorted_py (filter (\<lambda>r. r \<ge> head) requests) False;
          seek_sequence = [head] @ right @ left;
          total_seek = sum_abs_steps seek_sequence
      in (seek_sequence, total_seek))"

subsection \<open>The explanation generator\<close>

text \<open>\<^verbatim>\<open>str(n)\<close> for an integer: decimal digits, with a leading minus sign when negative.\<close>

fun str_nat :: "nat \<Rightarrow> string" where
  "str_nat n =
     (if n < 10 then [''0123456789'' ! n]
      else str_nat (n div 10) @ [''0123456789'' ! (n mod 10)])"

definition str_int :: "int \<Rightarrow> string" where
  "str_int i = (if i < 0 then ''-'' @ str_nat (nat (- i)) else str_nat (nat i))"

text \<open>\<^verbatim>\<open>sep.join(xs)\<close>\<close>

fun join :: "string \<Rightarrow> string list \<Rightarrow> string" where
  "join sep [] = []"
| "join sep [x] = x"
| "join sep (x # y # ys) = x @ sep @ join sep (y # ys)"

text \<open>
  The for loop of get_seek_explanation over \<^verbatim>\<open>range(len(path) - 1)\<close>, started from
  \<^verbatim>\<open>explanation = []\<close> and \<^verbatim>\<open>total = 0\<close>; it returns both variables.
\<close>

definition explanation_loop :: "int list \<Rightarrow> string list \<times> int" where
  "explanation_loop path =
     foldl (\<lambda>(explanation, total) i.
              (let diff = \<bar>path ! (i + 1) - path ! i\<bar>
               in (explanation @
                     [''|'' @ str_int (path ! (i + 1)) @ '' - '' @ str_int (path ! i)
                        @ ''| = '' @ str_int diff],
                   total + diff)))
           ([], 0) [0..<length path - 1]"

definition get_seek_explanation :: "int list \<Rightarrow> string" where
  "get_seek_explanation path =
     (let (explanation, total) = explanation_loop path;
          explanation_text = join [CHR 0x0A] explanation
      in ''Steps:'' @ [CHR 0x0A] @ explanation_text @ [CHR 0x0A, CHR 0x0A]
           @ ''Total Seek Time = '' @ str_int total)"

subsection \<open>Dispatch by policy name\<close>

text \<open>
  get_result has no final else: for any other name the function ends without a return
  statement and the caller receives \<^verbatim>\<open>None\<close>, modelled as \<open>Inr None\<close>. scan and cscan are
  called with their default \<^verbatim>\<open>max_cylinder=200\<close>.
\<close>

definition get_result :: "string \<Rightarrow> int list \<Rightarrow> int \<Rightarrow> py_error + (int list \<times> int) option" where
  "get_result algo queue head =
     (if algo = ''FCFS'' then Inr (Some (fcfs queue head))
      else if algo = ''SSTF'' then
        (case sstf queue head of Inl e \<Rightarrow> Inl e | Inr r \<Rightarrow> Inr (Some r))
      else if algo = ''SCAN'' then Inr (Some (scan queue head 200))
      else if algo = ''CSCAN'' then Inr (Some (cscan queue head 200))
      else if algo = ''LOOK'' then Inr (Some (look queue head))
      else if algo = ''CLOOK'' then Inr (Some (clook queue head))
      else Inr None)"

section \<open>Auxiliary facts\<close>

subsection \<open>Totals\<close>

lemma sum_abs_steps_single: "sum_abs_steps [a] = 0"
  by (simp add: sum_abs_steps_def)

lemma sum_abs_steps_Cons2: "sum_abs_steps (a # b # xs) = \<bar>a - b\<bar> + sum_abs_steps (b # xs)"
proof -
  have "[0..<Suc (length xs)] = 0 # map Suc [0..<length xs]"
    by (simp add: upt_conv_Cons map_Suc_upt del: upt_Suc)
  then show ?thesis
    by (simp add: sum_abs_steps_def comp_def del: upt_Suc)
qed

lemma explanation_fold_total:
  "snd (foldl (\<lambda>(explanation, total) i.
              (let diff = \<bar>path ! (i + 1) - path ! i\<bar>
               in (explanation @
                     [''|'' @ str_int (path ! (i + 1)) @ '' - '' @ str_int (path ! i)
                        @ ''| = '' @ str_int diff],
                   total + diff))) (e, t) js)
   = t + (\<Sum>i\<leftarrow>js. \<bar>path ! i - path ! (i + 1)\<bar>)"
  by (induction js arbitrary: e t) (simp_all add: Let_def abs_minus_commute)

lemma explanation_loop_total: "snd (explanation_loop path) = sum_abs_steps path"
  unfolding explanation_loop_def sum_abs_steps_def
  by (simp only: explanation_fold_total)

subsection \<open>Sorting\<close>

lemma sorted_py_False: "sorted_py xs False = sort xs"
  by (simp add: sorted_py_def)

lemma sorted_py_True: "sorted_py xs True = rev (sort xs)"
proof -
  have inj: "inj (\<lambda>x::int. - x)" by (simp add: inj_on_def)
  have "map (\<lambda>x. - x) (sort_key (\<lambda>x. - x) xs) = sort (map (\<lambda>x. - x) xs)"
  proof (rule sym, rule properties_for_sort)
    show "mset (map uminus (sort_key uminus xs)) = mset (map uminus xs)" by simp
    show "sorted (map uminus (sort_key uminus xs))" by (rule sorted_sort_key)
  qed
  moreover have "map (\<lambda>x. - x) (rev (sort xs)) = sort (map (\<lambda>x. - x) xs)"
  proof (rule sym, rule properties_for_sort)
    show "mset (map uminus (rev (sort xs))) = mset (map uminus xs)" by simp
    have "sorted_wrt (\<lambda>x y. y \<le> x) (rev (sort xs))"
      by (simp add: sorted_wrt_rev)
    then show "sorted (map uminus (rev (sort xs)))"
      by (simp add: sorted_wrt_map)
  qed
  ultimately have "map (\<lambda>x. - x) (sort_key (\<lambda>x. - x) xs) = map (\<lambda>x. - x) (rev (sort xs))"
    by simp
  then have "sort_key (\<lambda>x. - x) xs = rev (sort xs)"
    using inj by (simp add: inj_map_eq_map)
  then show ?thesis by (simp add: sorted_py_def)
qed

lemma sorted_both_ways_eq:
  "sorted_wrt (\<le>) xs \<Longrightarrow> sorted_wrt (\<ge>) xs \<Longrightarrow> a \<in> set xs \<Longrightarrow> b \<in> set xs \<Longrightarrow> a = b"
  for xs :: "int list"
  by (induction xs) fastforce+

lemma rev_sort_eq_iff:
  "rev (sort xs) = sort xs \<longleftrightarrow> (\<forall>a\<in>set xs. \<forall>b\<in>set xs. a = b)" for xs :: "int list"
proof
  assume eq: "rev (sort xs) = sort xs"
  have up: "sorted_wrt (\<le>) (sort xs)" by simp
  have "sorted_wrt (\<le>) (rev (sort xs))" using eq by simp
  then have down: "sorted_wrt (\<ge>) (sort xs)" by (simp add: sorted_wrt_rev)
  show "\<forall>a\<in>set xs. \<forall>b\<in>set xs. a = b"
  proof (intro ballI)
    fix a b assume "a \<in> set xs" "b \<in> set xs"
    then have "a \<in> set (sort xs)" "b \<in> set (sort xs)" by simp_all
    with up down show "a = b" by (rule sorted_both_ways_eq)
  qed
next
  assume all: "\<forall>a\<in>set xs. \<forall>b\<in>set xs. a = b"
  have "sorted_wrt (\<le>) ys" if "\<forall>a\<in>set ys. \<forall>b\<in>set ys. a = b" for ys :: "int list"
    using that by (induction ys) auto
  from this [of "rev (sort xs)"] all have "sorted (rev (sort xs))" by simp
  moreover have "mset (rev (sort xs)) = mset xs" by simp
  ultimately have "sort xs = rev (sort xs)" by (simp add: properties_for_sort)
  then show "rev (sort xs) = sort xs" by simp
qed

subsection \<open>The built-ins min and remove\<close>

lemma foldl_min_props:
  "foldl (\<lambda>best item. if key item < key best then item else best) b ys = c \<Longrightarrow>
   c \<in> set (b # ys) \<and> (\<forall>x\<in>set (b # ys). key c \<le> key x) \<and>
   List.find (\<lambda>x. key x = key c) (b # ys) = Some c"
  for key :: "'a \<Rightarrow> int"
proof (induction ys arbitrary: b)
  case Nil
  then show ?case by simp
next
  case (Cons y ys)
  let ?b = "if key y < key b then y else b"
  from Cons.prems have "foldl (\<lambda>best item. if key item < key best then item else best) ?b ys = c"
    by simp
  from Cons.IH [OF this]
  have mem: "c \<in> set (?b # ys)"
    and least: "\<forall>x\<in>set (?b # ys). key c \<le> key x"
    and first: "List.find (\<lambda>x. key x = key c) (?b # ys) = Some c"
    by blast+
  show ?case
  proof (cases "key y < key b")
    case True
    with mem least first show ?thesis by auto
  next
    case False
    with mem least first show ?thesis by (auto split: if_splits)
  qed
qed

lemma min_py_props:
  assumes "min_py key xs = Inr c"
  shows "c \<in> set xs" and "\<forall>x\<in>set xs. key c \<le> key x"
    and "List.find (\<lambda>x. key x = key c) xs = Some c"
proof -
  from assms obtain b ys where xs: "xs = b # ys"
    and c: "foldl (\<lambda>best item. if key item < key best then item else best) b ys = c"
    by (cases xs) auto
  from foldl_min_props [OF c] xs
  show "c \<in> set xs" and "\<forall>x\<in>set xs. key c \<le> key x"
    and "List.find (\<lambda>x. key x = key c) xs = Some c"
    by blast+
qed

lemma min_py_nonempty: "xs \<noteq> [] \<Longrightarrow> \<exists>c. min_py key xs = Inr c"
  by (cases xs) auto

lemma remove_py_mem: "v \<in> set xs \<Longrightarrow> remove_py xs v = Inr (remove1 v xs)"
  by (induction xs) auto

lemma subseq_remove1: "subseq (remove1 v xs) xs"
  by (induction xs) auto

subsection \<open>The loop of sstf\<close>

lemma sstf_body_step:
  assumes "st_requests s \<noteq> []"
  obtains c where "min_py (\<lambda>x. \<bar>x - st_head s\<bar>) (st_requests s) = Inr c"
    and "c \<in> set (st_requests s)"
    and "sstf_body s =
      Inr \<lparr>st_requests = remove1 c (st_requests s), st_head = c,
           st_seek_sequence = st_seek_sequence s @ [c],
           st_total_seek = st_total_seek s + \<bar>st_head s - c\<bar>\<rparr>"
proof -
  from assms obtain c where c: "min_py (\<lambda>x. \<bar>x - st_head s\<bar>) (st_requests s) = Inr c"
    using min_py_nonempty by blast
  then have mem: "c \<in> set (st_requests s)" by (rule min_py_props)
  then have "remove_py (st_requests s) c = Inr (remove1 c (st_requests s))"
    by (rule remove_py_mem)
  with c have "sstf_body s =
      Inr \<lparr>st_requests = remove1 c (st_requests s), st_head = c,
           st_seek_sequence = st_seek_sequence s @ [c],
           st_total_seek = st_total_seek s + \<bar>st_head s - c\<bar>\<rparr>"
    by (simp add: sstf_body_def)
  with c mem show thesis by (rule that)
qed

lemma sstf_iterate_run:
  "k \<le> length (st_requests s) \<Longrightarrow>
   \<exists>s' vs. sstf_iterate k s = Inr s' \<and> length vs = k \<and>
     st_seek_sequence s' = st_seek_sequence s @ vs \<and>
     mset (st_requests s') + mset vs = mset (st_requests s) \<and>
     subseq (st_requests s') (st_requests s) \<and>
     st_head s' = last (st_head s # vs) \<and>
     st_total_seek s' = st_total_seek s + sum_abs_steps (st_head s # vs)"
proof (induction k arbitrary: s)
  case 0
  show ?case by (simp add: sum_abs_steps_single)
next
  case (Suc k)
  then have "st_requests s \<noteq> []" by auto
  then obtain c where mem: "c \<in> set (st_requests s)"
    and body: "sstf_body s =
      Inr \<lparr>st_requests = remove1 c (st_requests s), st_head = c,
           st_seek_sequence = st_seek_sequence s @ [c],
           st_total_seek = st_total_seek s + \<bar>st_head s - c\<bar>\<rparr>"
    by (rule sstf_body_step)
  let ?s1 = "\<lparr>st_requests = remove1 c (st_requests s), st_head = c,
           st_seek_sequence = st_seek_sequence s @ [c],
           st_total_seek = st_total_seek s + \<bar>st_head s - c\<bar>\<rparr>"
  from mem Suc.prems have "k \<le> length (st_requests ?s1)"
    by (simp add: length_remove1)
  from Suc.IH [OF this] obtain s' vs where
    run: "sstf_iterate k ?s1 = Inr s'" and len: "length vs = k"
    and seq: "st_seek_sequence s' = st_seek_sequence ?s1 @ vs"
    and ms: "mset (st_requests s') + mset vs = mset (st_requests ?s1)"
    and sub: "subseq (st_requests s') (st_requests ?s1)"
    and hd: "st_head s' = last (st_head ?s1 # vs)"
    and tot: "st_total_seek s' = st_total_seek ?s1 + sum_abs_steps (st_head ?s1 # vs)"
    by blast
  have 1: "sstf_iterate (Suc k) s = Inr s'" using body run by simp
  have 2: "length (c # vs) = Suc k" using len by simp
  have 3: "st_seek_sequence s' = st_seek_sequence s @ (c # vs)" using seq by simp
  have 4: "mset (st_requests s') + mset (c # vs) = mset (st_requests s)"
    using ms mem by simp
  have 5: "subseq (st_requests s') (st_requests s)"
    using sub subseq_remove1 [of c "st_requests s"] by (auto intro: subseq_order.trans)
  have 6: "st_head s' = last (st_head s # c # vs)" using hd by simp
  have 7: "st_total_seek s' = st_total_seek s + sum_abs_steps (st_head s # c # vs)"
    using tot by (simp add: sum_abs_steps_Cons2)
  from 1 2 3 4 5 6 7 show ?case by blast
qed

lemma sstf_iterate_add:
  "sstf_iterate (j + k) s =
     (case sstf_iterate j s of Inl e \<Rightarrow> Inl e | Inr s' \<Rightarrow> sstf_iterate k s')"
  by (induction j arbitrary: s) (auto split: sum.splits)

lemma sstf_loop_iterate: "sstf_loop s = sstf_iterate (length (st_requests s)) s"
proof (induction "length (st_requests s)" arbitrary: s)
  case 0
  then show ?case by (subst sstf_loop.simps) simp
next
  case (Suc n)
  then have ne: "st_requests s \<noteq> []" by auto
  then obtain c where mem: "c \<in> set (st_requests s)"
    and body: "sstf_body s =
      Inr \<lparr>st_requests = remove1 c (st_requests s), st_head = c,
           st_seek_sequence = st_seek_sequence s @ [c],
           st_total_seek = st_total_seek s + \<bar>st_head s - c\<bar>\<rparr>"
    by (rule sstf_body_step)
  let ?s1 = "\<lparr>st_requests = remove1 c (st_requests s), st_head = c,
           st_seek_sequence = st_seek_sequence s @ [c],
           st_total_seek = st_total_seek s + \<bar>st_head s - c\<bar>\<rparr>"
  have n: "n = length (st_requests ?s1)"
    using mem Suc.hyps(2) by (simp add: length_remove1)
  then have "sstf_loop ?s1 = sstf_iterate n ?s1"
    using Suc.hyps(1) [of ?s1] by simp
  moreover have "sstf_loop s = sstf_loop ?s1"
    using ne body by (subst sstf_loop.simps) simp
  moreover have "sstf_iterate (length (st_requests s)) s = sstf_iterate n ?s1"
    using body Suc.hyps(2) [symmetric] by simp
  ultimately show ?case by simp
qed

lemma sstf_result:
  "\<exists>vs. sstf requests head = Inr (head # vs, sum_abs_steps (head # vs)) \<and>
        mset vs = mset requests"
proof -
  have "length requests \<le> length (st_requests (sstf_init requests head))"
    by (simp add: sstf_init_def)
  from sstf_iterate_run [OF this] obtain s' vs where
    run: "sstf_iterate (length requests) (sstf_init requests head) = Inr s'"
    and len: "length vs = length requests"
    and seq: "st_seek_sequence s' = [head] @ vs"
    and ms: "mset (st_requests s') + mset vs = mset requests"
    and tot: "st_total_seek s' = sum_abs_steps (head # vs)"
    by (auto simp: sstf_init_def)
  from ms have "size (mset (st_requests s')) + size (mset vs) = size (mset requests)"
    by (metis size_union)
  with len have "st_requests s' = []" by simp
  with ms have "mset vs = mset requests" by simp
  moreover have "sstf_loop (sstf_init requests head) = Inr s'"
    using run by (simp add: sstf_loop_iterate sstf_init_def)
  then have "sstf requests head = Inr (head # vs, sum_abs_steps (head # vs))"
    using seq tot by (simp add: sstf_def)
  ultimately show ?thesis by blast
qed

section \<open>FCFS\<close>

text \<open>
  C8. For FCFS the visits after the head are the request list exactly as submitted; for the
  requests 98, 183, 37, 122, 14, 124, 65, 67 and head 53 the sequence is
  53, 98, 183, 37, 122, 14, 124, 65, 67 and the total is 640.
\<close>

theorem fcfs_order_preserved:
  "tl (fst (fcfs requests head)) = requests \<and>
   fcfs [98, 183, 37, 122, 14, 124, 65, 67] 53 = ([53, 98, 183, 37, 122, 14, 124, 65, 67], 640)"
proof
  show "tl (fst (fcfs requests head)) = requests"
    by (simp add: fcfs_def Let_def)
next
  show "fcfs [98, 183, 37, 122, 14, 124, 65, 67] 53 = ([53, 98, 183, 37, 122, 14, 124, 65, 67], 640)"
    by (simp add: fcfs_def Let_def sum_abs_steps_Cons2 sum_abs_steps_single)
qed

section \<open>SCAN and CSCAN\<close>

text \<open>
  C6. The SCAN sequence is the head, then the requests at or above the head in ascending
  order, then the cylinder \<open>max_cylinder - 1\<close>, inserted once, then the requests below the head
  in descending order; the inserted cylinder stands at the index just after the at-or-above
  group.
\<close>

theorem scan_sequence:
  "fst (scan requests head max_cylinder) =
     [head] @ sort (filter (\<lambda>r. r \<ge> head) requests) @ [max_cylinder - 1]
       @ rev (sort (filter (\<lambda>r. r < head) requests)) \<and>
   fst (scan requests head max_cylinder) ! (1 + length (filter (\<lambda>r. r \<ge> head) requests))
     = max_cylinder - 1 \<and>
   length (fst (scan requests head max_cylinder)) = length requests + 2"
proof -
  have seq: "fst (scan requests head max_cylinder) =
     [head] @ sort (filter (\<lambda>r. r \<ge> head) requests) @ [max_cylinder - 1]
       @ rev (sort (filter (\<lambda>r. r < head) requests))"
    by (simp add: scan_def Let_def sorted_py_True sorted_py_False)
  have len: "length (filter (\<lambda>r. r \<ge> head) requests) + length (filter (\<lambda>r. r < head) requests)
      = length requests"
    using sum_length_filter_compl [of "\<lambda>r. r \<ge> head" requests] by (simp add: not_le)
  have idx: "(sort (filter (\<lambda>r. r \<ge> head) requests) @ [max_cylinder - 1]
       @ rev (sort (filter (\<lambda>r. r < head) requests))) ! length (filter (\<lambda>r. r \<ge> head) requests)
     = max_cylinder - 1"
    by (simp add: nth_append)
  show ?thesis using len idx by (simp add: seq)
qed

text \<open>
  C7. The CSCAN sequence is the head, then the requests at or above the head in ascending
  order, then the cylinder \<open>max_cylinder - 1\<close>, then 0 as the very next element, then the
  requests below the head in ascending order.
\<close>

theorem cscan_sequence:
  "fst (cscan requests head max_cylinder) =
     [head] @ sort (filter (\<lambda>r. r \<ge> head) requests) @ [max_cylinder - 1, 0]
       @ sort (filter (\<lambda>r. r < head) requests) \<and>
   fst (cscan requests head max_cylinder) ! (1 + length (filter (\<lambda>r. r \<ge> head) requests))
     = max_cylinder - 1 \<and>
   fst (cscan requests head max_cylinder) ! (2 + length (filter (\<lambda>r. r \<ge> head) requests)) = 0"
proof -
  have seq: "fst (cscan requests head max_cylinder) =
     [head] @ sort (filter (\<lambda>r. r \<ge> head) requests) @ [max_cylinder - 1, 0]
       @ sort (filter (\<lambda>r. r < head) requests)"
    by (simp add: cscan_def Let_def sorted_py_False)
  have idx: "(sort (filter (\<lambda>r. r \<ge> head) requests) @ [max_cylinder - 1, 0]
       @ sort (filter (\<lambda>r. r < head) requests)) ! length (filter (\<lambda>r. r \<ge> head) requests)
     = max_cylinder - 1"
    by (simp add: nth_append)
  have idx2: "(sort (filter (\<lambda>r. r \<ge> head) requests) @ [max_cylinder - 1, 0]
       @ sort (filter (\<lambda>r. r < head) requests)) ! Suc (length (filter (\<lambda>r. r \<ge> head) requests))
     = 0"
    by (simp add: nth_append)
  show ?thesis using idx idx2 by (simp add: seq)
qed

section \<open>LOOK and CLOOK\<close>

text \<open>
  C3, as the code has it. look and clook visit the same at-or-above group in ascending
  order; then look visits the requests below the head in descending order and clook visits
  them in ascending order. The two results are equal exactly when all requests below the
  head have the same value.
\<close>

theorem look_clook_relation:
  "fst (look requests head) =
     [head] @ sort (filter (\<lambda>r. r \<ge> head) requests) @ rev (sort (filter (\<lambda>r. r < head) requests)) \<and>
   fst (clook requests head) =
     [head] @ sort (filter (\<lambda>r. r \<ge> head) requests) @ sort (filter (\<lambda>r. r < head) requests) \<and>
   (look requests head = clook requests head \<longleftrightarrow>
      (\<forall>a\<in>set requests. \<forall>b\<in>set requests. a < head \<and> b < head \<longrightarrow> a = b))"
proof -
  let ?R = "sort (filter (\<lambda>r. r \<ge> head) requests)"
  let ?L = "filter (\<lambda>r. r < head) requests"
  have l: "look requests head = ([head] @ ?R @ rev (sort ?L), sum_abs_steps ([head] @ ?R @ rev (sort ?L)))"
    by (simp add: look_def Let_def sorted_py_True sorted_py_False)
  have c: "clook requests head = ([head] @ ?R @ sort ?L, sum_abs_steps ([head] @ ?R @ sort ?L))"
    by (simp add: clook_def Let_def sorted_py_False)
  have "look requests head = clook requests head \<longleftrightarrow> rev (sort ?L) = sort ?L"
    unfolding l c by auto
  also have "\<dots> \<longleftrightarrow> (\<forall>a\<in>set ?L. \<forall>b\<in>set ?L. a = b)"
    by (rule rev_sort_eq_iff)
  also have "\<dots> \<longleftrightarrow> (\<forall>a\<in>set requests. \<forall>b\<in>set requests. a < head \<and> b < head \<longrightarrow> a = b)"
    by auto
  finally show ?thesis by (simp add: l c)
qed

text \<open>With a single request below the head the two results coincide.\<close>

theorem look_clook_relation_witness:
  "look [60, 40, 70] 50 = clook [60, 40, 70] 50 \<and> fst (look [60, 40, 70] 50) = [50, 60, 70, 40]"
  using look_clook_relation [of "[60, 40, 70]" 50] by simp

text \<open>With two different requests below the head the sequences and the totals differ.\<close>

theorem look_clook_differ:
  "look [10, 20] 50 = ([50, 20, 10], 40) \<and> clook [10, 20] 50 = ([50, 10, 20], 50)"
  by (simp add: look_def clook_def Let_def sorted_py_def sum_abs_steps_Cons2 sum_abs_steps_single)

section \<open>Dispatch\<close>

text \<open>
  C4, as the code has it. For a policy name that is none of FCFS, SSTF, SCAN, CSCAN, LOOK
  and CLOOK, get_result raises nothing and returns \<^verbatim>\<open>None\<close>.
\<close>

theorem get_result_unknown_policy:
  "algo \<notin> {''FCFS'', ''SSTF'', ''SCAN'', ''CSCAN'', ''LOOK'', ''CLOOK''} \<Longrightarrow>
   get_result algo queue head = Inr None"
  by (simp add: get_result_def)

text \<open>The name RR is not recognised.\<close>

theorem get_result_unknown_policy_witness:
  "''RR'' \<notin> {''FCFS'', ''SSTF'', ''SCAN'', ''CSCAN'', ''LOOK'', ''CLOOK''} \<and>
   get_result ''RR'' [98, 183] 53 = Inr None"
  using get_result_unknown_policy [of "''RR''" "[98, 183]" 53] by simp

text \<open>An unrecognised name gives \<^verbatim>\<open>None\<close>, not an exception.\<close>

theorem get_result_unknown_returns_none:
  "get_result ''ROUND_ROBIN'' [98, 183, 37] 53 = Inr None"
  by (simp add: get_result_def)

section \<open>SSTF\<close>

text \<open>
  C2, as the code has it. Before each iteration \<open>k\<close> of sstf the current head is element
  \<open>k\<close> of the final sequence and the remaining requests are the submitted ones without the
  \<open>k\<close> already visited, in submission order. The next visited cylinder is a remaining
  request at the smallest absolute distance from the current head, and among the remaining
  requests at that distance it is the one that comes first in the remaining list.
\<close>

theorem sstf_chooses_first_closest:
  assumes "k < length requests"
  shows "\<exists>s seq total.
     sstf_iterate k (sstf_init requests head) = Inr s \<and>
     sstf requests head = Inr (seq, total) \<and>
     st_head s = seq ! k \<and>
     mset (st_requests s) + mset (take k (tl seq)) = mset requests \<and>
     subseq (st_requests s) requests \<and>
     seq ! Suc k \<in> set (st_requests s) \<and>
     (\<forall>r\<in>set (st_requests s). \<bar>seq ! Suc k - seq ! k\<bar> \<le> \<bar>r - seq ! k\<bar>) \<and>
     List.find (\<lambda>r. \<bar>r - seq ! k\<bar> = \<bar>seq ! Suc k - seq ! k\<bar>) (st_requests s)
       = Some (seq ! Suc k)"
proof -
  let ?init = "sstf_init requests head"
  have init: "st_requests ?init = requests" "st_head ?init = head"
    "st_seek_sequence ?init = [head]"
    by (simp_all add: sstf_init_def)
  from assms have "k \<le> length (st_requests ?init)" by (simp add: init)
  from sstf_iterate_run [OF this] obtain s vs where
    run: "sstf_iterate k ?init = Inr s" and len: "length vs = k"
    and seq: "st_seek_sequence s = [head] @ vs"
    and ms: "mset (st_requests s) + mset vs = mset requests"
    and sub: "subseq (st_requests s) requests"
    and hd: "st_head s = last (head # vs)"
    unfolding init by blast
  from ms have "size (mset (st_requests s)) + size (mset vs) = size (mset requests)"
    by (metis size_union)
  with len assms have rest: "length (st_requests s) = length requests - k" by simp
  with assms have ne: "st_requests s \<noteq> []" by auto
  then obtain c where c: "min_py (\<lambda>x. \<bar>x - st_head s\<bar>) (st_requests s) = Inr c"
    and body: "sstf_body s =
      Inr \<lparr>st_requests = remove1 c (st_requests s), st_head = c,
           st_seek_sequence = st_seek_sequence s @ [c],
           st_total_seek = st_total_seek s + \<bar>st_head s - c\<bar>\<rparr>"
    by (rule sstf_body_step)
  let ?s1 = "\<lparr>st_requests = remove1 c (st_requests s), st_head = c,
           st_seek_sequence = st_seek_sequence s @ [c],
           st_total_seek = st_total_seek s + \<bar>st_head s - c\<bar>\<rparr>"
  from c have mem: "c \<in> set (st_requests s)"
    and least: "\<forall>r\<in>set (st_requests s). \<bar>c - st_head s\<bar> \<le> \<bar>r - st_head s\<bar>"
    and first: "List.find (\<lambda>r. \<bar>r - st_head s\<bar> = \<bar>c - st_head s\<bar>) (st_requests s) = Some c"
    by (rule min_py_props)+
  let ?m = "length requests - Suc k"
  from mem rest have "?m \<le> length (st_requests ?s1)" by (simp add: length_remove1)
  from sstf_iterate_run [OF this] obtain s2 ws where
    run2: "sstf_iterate ?m ?s1 = Inr s2"
    and seq2: "st_seek_sequence s2 = st_seek_sequence ?s1 @ ws"
    by blast
  from assms have split: "length requests = k + Suc ?m" by simp
  have it: "sstf_iterate (k + Suc ?m) ?init = Inr s2"
    using run body run2 by (simp only: sstf_iterate_add) simp
  from split have eq: "sstf_iterate (length requests) ?init = sstf_iterate (k + Suc ?m) ?init"
    by (rule arg_cong [where f = "\<lambda>n. sstf_iterate n ?init"])
  have loop: "sstf_loop ?init = sstf_iterate (length requests) ?init"
    using sstf_loop_iterate [of ?init] by (simp only: init)
  have "sstf_loop ?init = Inr s2"
    by (simp only: loop eq it)
  then have res: "sstf requests head = Inr (st_seek_sequence s2, st_total_seek s2)"
    by (simp add: sstf_def)
  have whole: "st_seek_sequence s2 = (head # vs) @ c # ws"
    using seq seq2 by simp
  have at_k: "st_seek_sequence s2 ! k = st_head s"
  proof -
    have "st_seek_sequence s2 ! k = (head # vs) ! k"
      unfolding whole using len by (simp add: nth_append del: append_Cons)
    also have "\<dots> = last (head # vs)"
      using len by (simp add: last_conv_nth del: last.simps)
    finally show ?thesis using hd by simp
  qed
  have at_Suc: "st_seek_sequence s2 ! Suc k = c"
  proof -
    have "length (head # vs) = Suc k" using len by simp
    then show ?thesis unfolding whole by (metis nth_append_length)
  qed
  have visited: "take k (tl (st_seek_sequence s2)) = vs"
    using whole len by simp
  show ?thesis
    using run res at_k at_Suc visited ms sub mem least first by auto
qed

text \<open>The first iteration on the requests 60, 40 with the head at 50.\<close>

theorem sstf_chooses_first_closest_witness:
  "(0::nat) < length [60, 40 :: int] \<and>
   (\<exists>s seq total.
     sstf_iterate 0 (sstf_init [60, 40] 50) = Inr s \<and>
     sstf [60, 40] 50 = Inr (seq, total) \<and>
     st_head s = seq ! 0 \<and>
     seq ! Suc 0 \<in> set (st_requests s) \<and>
     List.find (\<lambda>r. \<bar>r - seq ! 0\<bar> = \<bar>seq ! Suc 0 - seq ! 0\<bar>) (st_requests s)
       = Some (seq ! Suc 0))"
proof -
  have h: "(0::nat) < length [60, 40 :: int]" by simp
  from sstf_chooses_first_closest [OF h, of 50] show ?thesis
    using h by blast
qed

text \<open>
  The requests 60 and 40 are both at distance 10 from the head at 50; sstf visits 60, the
  one listed first, not the smaller cylinder 40.
\<close>

theorem sstf_tie_takes_first_listed:
  "sstf [60, 40] 50 = Inr ([50, 60, 40], 30)"
  by code_simp

text \<open>
  C10. The loop of sstf raises nothing and ends after exactly as many iterations as there
  are requests: every iteration on a non-empty list removes the visited request, one
  element, so after \<open>k\<close> iterations \<open>length requests - k\<close> requests remain, and the loop returns
  the state reached after \<open>length requests\<close> iterations. The visits after the head are a
  permutation of the requests, with multiplicity.
\<close>

theorem sstf_terminates_permutation:
  "(\<forall>k\<le>length requests. \<exists>s. sstf_iterate k (sstf_init requests head) = Inr s \<and>
       length (st_requests s) = length requests - k) \<and>
   (\<forall>s. st_requests s \<noteq> [] \<longrightarrow>
       (\<exists>s'. sstf_body s = Inr s' \<and> st_requests s' = remove1 (st_head s') (st_requests s) \<and>
             st_head s' \<in> set (st_requests s) \<and>
             Suc (length (st_requests s')) = length (st_requests s))) \<and>
   sstf_loop (sstf_init requests head) = sstf_iterate (length requests) (sstf_init requests head) \<and>
   (\<exists>seq total. sstf requests head = Inr (seq, total) \<and> mset (tl seq) = mset requests \<and>
        length seq = Suc (length requests))"
proof (intro conjI allI impI)
  fix k assume k: "k \<le> length requests"
  then have "k \<le> length (st_requests (sstf_init requests head))" by (simp add: sstf_init_def)
  from sstf_iterate_run [OF this] obtain s vs where
    run: "sstf_iterate k (sstf_init requests head) = Inr s" and len: "length vs = k"
    and ms: "mset (st_requests s) + mset vs = mset requests"
    by (auto simp: sstf_init_def)
  from ms have "size (mset (st_requests s)) + size (mset vs) = size (mset requests)"
    by (metis size_union)
  with len have "length (st_requests s) = length requests - k" by simp
  with run show "\<exists>s. sstf_iterate k (sstf_init requests head) = Inr s \<and>
       length (st_requests s) = length requests - k" by blast
next
  fix s :: sstf_state assume "st_requests s \<noteq> []"
  then obtain c where mem: "c \<in> set (st_requests s)"
    and body: "sstf_body s =
      Inr \<lparr>st_requests = remove1 c (st_requests s), st_head = c,
           st_seek_sequence = st_seek_sequence s @ [c],
           st_total_seek = st_total_seek s + \<bar>st_head s - c\<bar>\<rparr>"
    by (rule sstf_body_step)
  from mem have "0 < length (st_requests s)" by (rule length_pos_if_in_set)
  with mem have "Suc (length (remove1 c (st_requests s))) = length (st_requests s)"
    by (simp add: length_remove1)
  with mem body show "\<exists>s'. sstf_body s = Inr s' \<and>
      st_requests s' = remove1 (st_head s') (st_requests s) \<and>
      st_head s' \<in> set (st_requests s) \<and>
      Suc (length (st_requests s')) = length (st_requests s)"
    by simp
next
  show "sstf_loop (sstf_init requests head) =
      sstf_iterate (length requests) (sstf_init requests head)"
    using sstf_loop_iterate [of "sstf_init requests head"] by (simp add: sstf_init_def)
next
  from sstf_result [of requests head] obtain vs where
    "sstf requests head = Inr (head # vs, sum_abs_steps (head # vs))" "mset vs = mset requests"
    by blast
  moreover from this have "length vs = length requests" by (metis size_mset)
  ultimately show "\<exists>seq total. sstf requests head = Inr (seq, total) \<and>
      mset (tl seq) = mset requests \<and> length seq = Suc (length requests)"
    by simp
qed

text \<open>Three requests: one remains after two iterations, and the loop runs three times.\<close>

theorem sstf_terminates_permutation_witness:
  "(\<exists>s. sstf_iterate 2 (sstf_init [98, 183, 37] 53) = Inr s \<and> length (st_requests s) = 1) \<and>
   (\<exists>s'. sstf_body (sstf_init [98, 183, 37] 53) = Inr s' \<and>
         Suc (length (st_requests s')) = length [98, 183, 37 :: int]) \<and>
   sstf_loop (sstf_init [98, 183, 37] 53) =
     sstf_iterate (length [98, 183, 37 :: int]) (sstf_init [98, 183, 37] 53)"
proof -
  note t = sstf_terminates_permutation [of "[98, 183, 37]" 53]
  have le: "2 \<le> length [98, 183, 37 :: int]" by simp
  from t have "\<forall>k\<le>length [98, 183, 37 :: int].
      \<exists>s. sstf_iterate k (sstf_init [98, 183, 37] 53) = Inr s \<and>
          length (st_requests s) = length [98, 183, 37 :: int] - k"
    by (rule conjunct1)
  from this [rule_format, OF le]
  have 1: "\<exists>s. sstf_iterate 2 (sstf_init [98, 183, 37] 53) = Inr s \<and>
       length (st_requests s) = 1"
    by simp
  have ne: "st_requests (sstf_init [98, 183, 37] 53) \<noteq> []" by (simp add: sstf_init_def)
  from t have "\<forall>s. st_requests s \<noteq> [] \<longrightarrow>
       (\<exists>s'. sstf_body s = Inr s' \<and> st_requests s' = remove1 (st_head s') (st_requests s) \<and>
             st_head s' \<in> set (st_requests s) \<and>
             Suc (length (st_requests s')) = length (st_requests s))" by blast
  with ne have "\<exists>s'. sstf_body (sstf_init [98, 183, 37] 53) = Inr s' \<and>
         Suc (length (st_requests s')) = length (st_requests (sstf_init [98, 183, 37] 53))"
    by blast
  then have 2: "\<exists>s'. sstf_body (sstf_init [98, 183, 37] 53) = Inr s' \<and>
         Suc (length (st_requests s')) = length [98, 183, 37 :: int]"
    by (simp add: sstf_init_def)
  from t have 3: "sstf_loop (sstf_init [98, 183, 37] 53) =
      sstf_iterate (length [98, 183, 37 :: int]) (sstf_init [98, 183, 37] 53)" by blast
  from 1 2 3 show ?thesis by (intro conjI)
qed

section \<open>Properties of all six generators\<close>

text \<open>
  C1, as the code has it. With an empty request queue fcfs, sstf, look and clook return the
  sequence \<open>[head]\<close> and the total 0. scan returns \<open>[head, max_cylinder - 1]\<close> and cscan returns
  \<open>[head, max_cylinder - 1, 0]\<close>, with the distance travelled to these cylinders as total.
\<close>

theorem empty_queue_results:
  "fcfs [] head = ([head], 0) \<and>
   sstf [] head = Inr ([head], 0) \<and>
   look [] head = ([head], 0) \<and>
   clook [] head = ([head], 0) \<and>
   scan [] head max_cylinder = ([head, max_cylinder - 1], \<bar>head - (max_cylinder - 1)\<bar>) \<and>
   cscan [] head max_cylinder =
     ([head, max_cylinder - 1, 0], \<bar>head - (max_cylinder - 1)\<bar> + \<bar>max_cylinder - 1\<bar>)"
proof (intro conjI)
  show "fcfs [] head = ([head], 0)"
    by (simp add: fcfs_def sum_abs_steps_single)
  show "sstf [] head = Inr ([head], 0)"
    by (simp add: sstf_def sstf_init_def sstf_loop.simps)
  show "look [] head = ([head], 0)"
    by (simp add: look_def sorted_py_def sum_abs_steps_single)
  show "clook [] head = ([head], 0)"
    by (simp add: clook_def sorted_py_def sum_abs_steps_single)
  show "scan [] head max_cylinder = ([head, max_cylinder - 1], \<bar>head - (max_cylinder - 1)\<bar>)"
    by (simp add: scan_def sorted_py_def sum_abs_steps_Cons2 sum_abs_steps_single)
  show "cscan [] head max_cylinder =
     ([head, max_cylinder - 1, 0], \<bar>head - (max_cylinder - 1)\<bar> + \<bar>max_cylinder - 1\<bar>)"
    by (simp add: cscan_def sorted_py_def sum_abs_steps_Cons2 sum_abs_steps_single)
qed

text \<open>
  With an empty queue and the default 200 cylinders, SCAN and CSCAN still move the head
  from 53 to cylinder 199, and CSCAN on to cylinder 0.
\<close>

theorem empty_queue_scan_cscan_visit_boundaries:
  "get_result ''SCAN'' [] 53 = Inr (Some ([53, 199], 146)) \<and>
   get_result ''CSCAN'' [] 53 = Inr (Some ([53, 199, 0], 345))"
  by (simp add: get_result_def scan_def cscan_def sorted_py_def
      sum_abs_steps_Cons2 sum_abs_steps_single)

text \<open>
  C5. For each of the six generators the returned total equals the total that
  get_seek_explanation accumulates over the returned sequence, which is the sum of the
  absolute differences of its steps and the number printed after "Total Seek Time = ".
\<close>

theorem total_equals_explanation_total:
  "snd (fcfs requests head) = snd (explanation_loop (fst (fcfs requests head))) \<and>
   (\<exists>seq. sstf requests head = Inr (seq, snd (explanation_loop seq))) \<and>
   snd (scan requests head max_cylinder) =
     snd (explanation_loop (fst (scan requests head max_cylinder))) \<and>
   snd (cscan requests head max_cylinder) =
     snd (explanation_loop (fst (cscan requests head max_cylinder))) \<and>
   snd (look requests head) = snd (explanation_loop (fst (look requests head))) \<and>
   snd (clook requests head) = snd (explanation_loop (fst (clook requests head))) \<and>
   snd (explanation_loop path) = (\<Sum>i\<leftarrow>[0..<length path - 1]. \<bar>path ! (i + 1) - path ! i\<bar>) \<and>
   get_seek_explanation path =
     ''Steps:'' @ [CHR 0x0A] @ join [CHR 0x0A] (fst (explanation_loop path))
       @ [CHR 0x0A, CHR 0x0A] @ ''Total Seek Time = '' @ str_int (snd (explanation_loop path))"
proof (intro conjI)
  show "snd (fcfs requests head) = snd (explanation_loop (fst (fcfs requests head)))"
    by (simp add: fcfs_def Let_def explanation_loop_total)
  from sstf_result [of requests head]
  show "\<exists>seq. sstf requests head = Inr (seq, snd (explanation_loop seq))"
    by (auto simp: explanation_loop_total)
  show "snd (scan requests head max_cylinder) =
     snd (explanation_loop (fst (scan requests head max_cylinder)))"
    by (simp add: scan_def Let_def explanation_loop_total)
  show "snd (cscan requests head max_cylinder) =
     snd (explanation_loop (fst (cscan requests head max_cylinder)))"
    by (simp add: cscan_def Let_def explanation_loop_total)
  show "snd (look requests head) = snd (explanation_loop (fst (look requests head)))"
    by (simp add: look_def Let_def explanation_loop_total)
  show "snd (clook requests head) = snd (explanation_loop (fst (clook requests head)))"
    by (simp add: clook_def Let_def explanation_loop_total)
  show "snd (explanation_loop path) = (\<Sum>i\<leftarrow>[0..<length path - 1]. \<bar>path ! (i + 1) - path ! i\<bar>)"
    by (simp add: explanation_loop_total sum_abs_steps_def abs_minus_commute)
  show "get_seek_explanation path =
     ''Steps:'' @ [CHR 0x0A] @ join [CHR 0x0A] (fst (explanation_loop path))
       @ [CHR 0x0A, CHR 0x0A] @ ''Total Seek Time = '' @ str_int (snd (explanation_loop path))"
    by (simp add: get_seek_explanation_def Let_def split_beta)
qed

text \<open>
  C9. For every policy, request list, head position and cylinder count the returned
  sequence is not empty and its first element is the head position passed in; sstf in
  particular returns a sequence and raises nothing.
\<close>

theorem sequence_starts_at_head:
  "fst (fcfs requests head) \<noteq> [] \<and> hd (fst (fcfs requests head)) = head \<and>
   (\<exists>seq total. sstf requests head = Inr (seq, total) \<and> seq \<noteq> [] \<and> hd seq = head) \<and>
   fst (scan requests head max_cylinder) \<noteq> [] \<and>
   hd (fst (scan requests head max_cylinder)) = head \<and>
   fst (cscan requests head max_cylinder) \<noteq> [] \<and>
   hd (fst (cscan requests head max_cylinder)) = head \<and>
   fst (look requests head) \<noteq> [] \<and> hd (fst (look requests head)) = head \<and>
   fst (clook requests head) \<noteq> [] \<and> hd (fst (clook requests head)) = head"
proof -
  from sstf_result [of requests head]
  have "\<exists>seq total. sstf requests head = Inr (seq, total) \<and> seq \<noteq> [] \<and> hd seq = head"
    by auto
  then show ?thesis
    by (simp add: fcfs_def scan_def cscan_def look_def clook_def Let_def)
qed

end
